theory Spec2Isabelle
  imports Complex_Main "HOL-Library.Sublist"
begin

section \<open>Strings as the script uses them\<close>

text \<open>
  Python strings are modelled as \<open>string\<close> (a list of characters); the identifiers of the
  catalogue are ASCII. The helpers below are the string methods that \<open>lookup.py\<close> calls.
\<close>

text \<open>\<open>str.lower()\<close> on ASCII text: the 26 capital letters are mapped, everything else stays.\<close>

definition lower_char :: "char \<Rightarrow> char" where
  "lower_char c =
     (case map_of (zip ''ABCDEFGHIJKLMNOPQRSTUVWXYZ'' ''abcdefghijklmnopqrstuvwxyz'') c of
        None \<Rightarrow> c
      | Some l \<Rightarrow> l)"

definition lower :: "string \<Rightarrow> string" where
  "lower s = map lower_char s"

text \<open>\<open>t in s\<close> on strings: \<open>t\<close> occurs in \<open>s\<close> as a contiguous substring.\<close>

fun str_in :: "string \<Rightarrow> string \<Rightarrow> bool" where
  "str_in t [] = (t = [])"
| "str_in t (c # cs) = (prefix t (c # cs) \<or> str_in t cs)"

text \<open>\<open>s.startswith(p)\<close>.\<close>

fun startswith :: "string \<Rightarrow> string \<Rightarrow> bool" where
  "startswith s [] = True"
| "startswith [] (p # ps) = False"
| "startswith (c # cs) (p # ps) = (c = p \<and> startswith cs ps)"

text \<open>
  \<open>s.partition(sep)\<close> for a one-character separator: the text before the first
  separator, the separator, the text after it; without a separator the whole string and
  two empty strings.
\<close>

definition str_partition :: "string \<Rightarrow> char \<Rightarrow> string \<times> string \<times> string" where
  "str_partition s sep =
     (if sep \<in> set s
      then (takeWhile (\<lambda>c. c \<noteq> sep) s, [sep], tl (dropWhile (\<lambda>c. c \<noteq> sep) s))
      else (s, [], []))"

text \<open>\<open>s.split(sep)[0]\<close> for a one-character separator: the text before the first separator.\<close>

definition split_first :: "string \<Rightarrow> char \<Rightarrow> string" where
  "split_first s sep = takeWhile (\<lambda>c. c \<noteq> sep) s"

section \<open>The regular expression of \<open>to_native_id\<close>\<close>

text \<open>The class \<open>\d\<close> on ASCII text.\<close>

definition is_digit :: "char \<Rightarrow> bool" where
  "is_digit c = (c \<in> set ''0123456789'')"

text \<open>
  One attempt of the pattern \<open>(\d+)\.(\d+)\<close> at the start of a string. Both groups are
  greedy, so each one is a maximal run of digits; giving digits back cannot help, since
  the character after a shortened first group is a digit and not the dot. The result is
  the two groups and the text after the match.
\<close>

definition match_version :: "string \<Rightarrow> (string \<times> string \<times> string) option" where
  "match_version s =
     (let g1 = takeWhile is_digit s; r = dropWhile is_digit s in
      if g1 = [] then None
      else (case r of
              [] \<Rightarrow> None
            | d # r' \<Rightarrow>
                if d = CHR ''.'' \<and> takeWhile is_digit r' \<noteq> []
                then Some (g1, takeWhile is_digit r', dropWhile is_digit r')
                else None))"

text \<open>
  \<open>re.sub(r"(\d+)\.(\d+)", r"\1-\2", s)\<close>: scan from the left; where the pattern matches,
  emit the two groups joined by a dash and go on after the match; elsewhere copy one
  character and go on at the next one. Matches do not overlap.
\<close>

function re_sub_version :: "string \<Rightarrow> string" where
  "re_sub_version [] = []"
| "re_sub_version (c # cs) =
     (case match_version (c # cs) of
        Some (g1, g2, rest) \<Rightarrow> g1 @ ''-'' @ g2 @ re_sub_version rest
      | None \<Rightarrow> c # re_sub_version cs)"
  by pat_completeness auto
termination
proof (relation "measure length", goal_cases)
  case 1
  show ?case by simp
next
  case (2 c cs)
  show ?case by simp
next
  case (3 c cs m g1 p g2 rest)
  then obtain r' where r: "dropWhile is_digit (c # cs) = CHR ''.'' # r'"
    and rest: "rest = dropWhile is_digit r'"
    by (auto simp: match_version_def Let_def split: if_splits list.splits)
  have "length rest \<le> length r'"
    using rest by (simp add: length_dropWhile_le)
  moreover have "length (dropWhile is_digit (c # cs)) \<le> length (c # cs)"
    by (rule length_dropWhile_le)
  ultimately show ?case using r by simp
qed

section \<open>ID translator\<close>

definition to_native_id :: "string \<Rightarrow> string" where
  "to_native_id openrouter_id =
     (case str_partition openrouter_id CHR ''/'' of
        (provider, _, model_part) \<Rightarrow>
          if provider = ''anthropic''
          then split_first (re_sub_version model_part) CHR '':''
          else model_part)"

section \<open>Model records and the matcher\<close>

text \<open>
  A model record is a JSON object of the catalogue. The functions below read three of
  its keys: \<open>id\<close> (always present), \<open>name\<close> and \<open>created\<close> (both read with
  \<open>dict.get\<close>, so they may be missing: \<open>None\<close>). The creation time is an integer number
  of epoch seconds.
\<close>

record model =
  m_id :: string
  m_name :: "string option"
  m_created :: "int option"

text \<open>\<open>model.get("name", "")\<close> and \<open>model.get("created", 0)\<close>.\<close>

definition get_name :: "model \<Rightarrow> string" where
  "get_name m = (case m_name m of None \<Rightarrow> [] | Some n \<Rightarrow> n)"

definition get_created :: "model \<Rightarrow> int" where
  "get_created m = (case m_created m of None \<Rightarrow> 0 | Some c \<Rightarrow> c)"

text \<open>
  The score starts as the integer 0 and becomes a float once the recency boost is added.
  It is modelled as an exact rational number: the rounding of Python's floats is left
  out.
\<close>

text \<open>The body of the loop over the query terms.\<close>

definition score_term :: "string \<Rightarrow> string \<Rightarrow> rat \<Rightarrow> string \<Rightarrow> rat" where
  "score_term model_id model_name score trm =
     (let t = lower trm;
          score = (if str_in t model_id then score + 10 else score)
      in if str_in t model_name then score + 5 else score)"

definition score_match :: "string list \<Rightarrow> model \<Rightarrow> rat" where
  "score_match query_terms m =
     (let model_id = lower (m_id m);
          model_name = lower (get_name m);
          score = foldl (score_term model_id model_name) 0 query_terms;
          created = get_created m;
          score = (if created \<noteq> 0 then score + rat_of_int created / 10 ^ 12 else score)
      in if str_in '':free'' model_id then score - 3 else score)"

text \<open>
  \<open>list.sort(key=..., reverse=True)\<close> is stable: records of equal score keep their
  order. Sorting by the negated score with the stable \<open>sort_key\<close> does the same.
\<close>

definition search :: "string list \<Rightarrow> model list \<Rightarrow> model list" where
  "search query_terms models =
     (let scored = map (\<lambda>m. (score_match query_terms m, m)) models;
          scored = filter (\<lambda>(s, m). s > 0) scored;
          scored = sort_key (\<lambda>x. - fst x) scored
      in map snd (take 8 scored))"

section \<open>Provider lister\<close>

definition PROVIDER_PREFIXES :: "(string \<times> string) list" where
  "PROVIDER_PREFIXES =
     [(''google'', ''google/''),
      (''openai'', ''openai/''),
      (''anthropic'', ''anthropic/''),
      (''deepseek'', ''deepseek/''),
      (''meta-llama'', ''meta-llama/''),
      (''mistralai'', ''mistralai/''),
      (''cohere'', ''cohere/''),
      (''qwen'', ''qwen/''),
      (''x-ai'', ''x-ai/'')]"

text \<open>\<open>PROVIDER_PREFIXES.get(provider, f"{provider}/")\<close>.\<close>

definition provider_prefix :: "string \<Rightarrow> string" where
  "provider_prefix provider =
     (case map_of PROVIDER_PREFIXES provider of
        None \<Rightarrow> provider @ ''/''
      | Some p \<Rightarrow> p)"

definition list_provider :: "string \<Rightarrow> model list \<Rightarrow> model list" where
  "list_provider provider models =
     (let pre = provider_prefix provider
      in filter (\<lambda>m. startswith (m_id m) pre) models)"

section \<open>Cache store and fetcher\<close>

text \<open>
  What \<open>fetch_models\<close> sees of the outside: the cache file (its modification time and
  its text, or \<open>None\<close> when it does not exist), the clock, the answer the endpoint would
  give (\<open>None\<close> when the request fails), and a counter of the requests sent. Times are
  exact rationals. The file system is taken to allow reading and writing the cache file.
\<close>

record world =
  cache_file :: "(rat \<times> string) option"
  clock :: rat
  response :: "string option"
  requests :: nat

datatype error = URLError | JSONDecodeError | KeyError

text \<open>
  The \<open>json\<close> module over some type \<open>'j\<close> of JSON values: \<open>json.loads\<close> (\<open>None\<close> when
  the text is malformed), \<open>json.dumps\<close>, and the subscript \<open>data["data"]\<close> (\<open>None\<close> when
  it raises).
\<close>

record 'j json_lib =
  loads :: "string \<Rightarrow> 'j option"
  dumps :: "'j \<Rightarrow> string"
  subscript_data :: "'j \<Rightarrow> 'j option"

definition CACHE_TTL :: rat where
  "CACHE_TTL = 3600"

text \<open>
  The second half of \<open>fetch_models\<close>: one request; the cache file is opened for writing
  (and so emptied) before \<open>data["data"]\<close> is evaluated.
\<close>

definition fetch_remote :: "'j json_lib \<Rightarrow> world \<Rightarrow> (error + 'j) \<times> world" where
  "fetch_remote J w =
     (let w1 = w\<lparr>requests := requests w + 1\<rparr> in
      case response w1 of
        None \<Rightarrow> (Inl URLError, w1)
      | Some body \<Rightarrow>
          (case loads J body of
             None \<Rightarrow> (Inl JSONDecodeError, w1)
           | Some data \<Rightarrow>
               (let w2 = w1\<lparr>cache_file := Some (clock w1, [])\<rparr> in
                case subscript_data J data of
                  None \<Rightarrow> (Inl KeyError, w2)
                | Some d \<Rightarrow> (Inr d, w2\<lparr>cache_file := Some (clock w2, dumps J d)\<rparr>))))"

definition fetch_models :: "'j json_lib \<Rightarrow> world \<Rightarrow> (error + 'j) \<times> world" where
  "fetch_models J w =
     (case cache_file w of
        Some (mtime, content) \<Rightarrow>
          (let age = clock w - mtime in
           if age < CACHE_TTL
           then (case loads J content of
                   None \<Rightarrow> (Inl JSONDecodeError, w)
                 | Some v \<Rightarrow> (Inr v, w))
           else fetch_remote J w)
      | None \<Rightarrow> fetch_remote J w)"

section \<open>Command line\<close>

text \<open>
  What one run prints: the usage text, the traceback of an exception that nothing
  catches, one of the two "No models found" messages, the listing of a provider (native
  ID and name of each record), or the matches of a search (each record is rendered by
  \<open>format_model\<close>, which is not modelled).
\<close>

datatype printed =
    Usage
  | Traceback error
  | NoProvider string
  | Listing string "(string \<times> string) list"
  | NoMatch "string list"
  | Matches "string list" "model list"



section \<open>Notions of the specification\<close>


text \<open>The string starts with a dot and a digit.\<close>

fun starts_dot_digit :: "string \<Rightarrow> bool" where
  "starts_dot_digit (d # e # r) = (d = CHR ''.'' \<and> is_digit e)"
| "starts_dot_digit _ = False"

text \<open>
  A string contains a substring of the form digits, dot, digits exactly when somewhere
  in it a digit is followed by a dot and a digit.
\<close>

fun has_version :: "string \<Rightarrow> bool" where
  "has_version [] = False"
| "has_version (a # s) = ((is_digit a \<and> starts_dot_digit s) \<or> has_version s)"


section \<open>Auxiliary facts\<close>

lemma startswith_prefix: "startswith s p = prefix p s"
  by (induction s p rule: startswith.induct) auto

















text \<open>What a match of the pattern says about the string.\<close>

lemma match_versionD:
  assumes "match_version s = Some (g1, g2, rest)"
  shows "s = g1 @ CHR ''.'' # g2 @ rest" and "g1 \<noteq> []" and "g2 \<noteq> []"
    and "g1 = takeWhile is_digit s"
    and "\<forall>c \<in> set g1. is_digit c" and "\<forall>c \<in> set g2. is_digit c"
proof -
  from assms obtain r' where g1: "g1 = takeWhile is_digit s" and ne: "g1 \<noteq> []"
    and r: "dropWhile is_digit s = CHR ''.'' # r'"
    and g2: "g2 = takeWhile is_digit r'" and ne2: "g2 \<noteq> []"
    and rest: "rest = dropWhile is_digit r'"
    by (auto simp: match_version_def Let_def split: if_splits list.splits)
  have "s = takeWhile is_digit s @ dropWhile is_digit s"
    by simp
  also have "\<dots> = g1 @ CHR ''.'' # (takeWhile is_digit r' @ dropWhile is_digit r')"
    unfolding r g1 takeWhile_dropWhile_id ..
  finally show "s = g1 @ CHR ''.'' # g2 @ rest"
    by (simp add: g2 rest)
  show "g1 \<noteq> []" by (rule ne)
  show "g2 \<noteq> []" by (rule ne2)
  show "g1 = takeWhile is_digit s" by (rule g1)
  show "\<forall>c \<in> set g1. is_digit c"
    unfolding g1 by (auto dest: set_takeWhileD)
  show "\<forall>c \<in> set g2. is_digit c"
    unfolding g2 by (auto dest: set_takeWhileD)
qed

lemma not_digit_dot: "\<not> is_digit CHR ''.''"
  by (simp add: is_digit_def)



lemma re_sub_version_None:
  "match_version (c # cs) = None \<Longrightarrow> re_sub_version (c # cs) = c # re_sub_version cs"
  by simp

lemma re_sub_version_Some:
  "match_version (c # cs) = Some (g1, g2, rest) \<Longrightarrow>
   re_sub_version (c # cs) = g1 @ CHR ''-'' # g2 @ re_sub_version rest"
  by simp

lemma re_sub_version_induct [case_names Nil NoMatch Match]:
  assumes "P []"
    and "\<And>c cs. match_version (c # cs) = None \<Longrightarrow> P cs \<Longrightarrow> P (c # cs)"
    and "\<And>c cs g1 g2 rest.
          match_version (c # cs) = Some (g1, g2, rest) \<Longrightarrow> P rest \<Longrightarrow> P (c # cs)"
  shows "P s"
proof (induction s rule: re_sub_version.induct)
  case 1
  show ?case by (rule assms(1))
next
  case (2 c cs)
  show ?case
  proof (cases "match_version (c # cs)")
    case None
    with 2(1) assms(2) show ?thesis
      by blast
  next
    case (Some t)
    obtain g1 g2 rest where t: "t = (g1, g2, rest)"
      by (cases t)
    have "P rest"
      using 2(2) [OF Some] t by simp
    with Some t assms(3) show ?thesis
      by blast
  qed
qed

lemma length_re_sub_version: "length (re_sub_version s) = length s"
proof (induction s rule: re_sub_version_induct)
  case Nil
  show ?case by simp
next
  case (NoMatch c cs)
  then show ?case by simp
next
  case (Match c cs g1 g2 rest)
  have "length (c # cs) = length (g1 @ CHR ''.'' # g2 @ rest)"
    using match_versionD(1) [OF Match(1)] by simp
  with Match show ?case
    by (simp del: re_sub_version.simps add: re_sub_version_Some)
qed



lemma starts_dot_digit_iff:
  "starts_dot_digit s \<longleftrightarrow> (\<exists>e r. s = CHR ''.'' # e # r \<and> is_digit e)"
  by (cases s rule: starts_dot_digit.cases) auto


lemma has_version_digits:
  assumes "\<forall>c \<in> set ds. is_digit c"
  shows "has_version (ds @ r) \<longleftrightarrow> (ds \<noteq> [] \<and> starts_dot_digit r) \<or> has_version r"
  using assms
proof (induction ds)
  case Nil
  show ?case by simp
next
  case (Cons a ds)
  then have a: "is_digit a" and ds: "\<forall>c \<in> set ds. is_digit c"
    by simp_all
  show ?case
  proof (cases ds)
    case Nil
    with a show ?thesis by simp
  next
    case (Cons b bs)
    with ds have "is_digit b" by simp
    then have "b \<noteq> CHR ''.''"
      using not_digit_dot by auto
    then have "\<not> starts_dot_digit (ds @ r)"
      using Cons by (simp add: starts_dot_digit_iff)
    with Cons.IH [OF ds] Cons show ?thesis
      by simp
  qed
qed

lemma has_version_append: "has_version r \<Longrightarrow> has_version (p @ r)"
  by (induction p) simp_all





text \<open>The partition of a well-formed ID, and what \<open>to_native_id\<close> makes of it.\<close>

lemma str_partition_slash:
  assumes "sep \<notin> set p"
  shows "str_partition (p @ sep # s) sep = (p, [sep], s)"
proof -
  have "takeWhile (\<lambda>c. c \<noteq> sep) (p @ sep # s) = p"
    using assms by (induction p) auto
  moreover have "dropWhile (\<lambda>c. c \<noteq> sep) (p @ sep # s) = sep # s"
    using assms by (induction p) auto
  ultimately show ?thesis
    by (simp add: str_partition_def)
qed


lemma to_native_id_no_slash:
  "CHR ''/'' \<notin> set x \<Longrightarrow> to_native_id x = []"
  by (simp add: to_native_id_def str_partition_def split_first_def)

lemma length_to_native_id:
  "x \<noteq> [] \<Longrightarrow> length (to_native_id x) < length x"
proof (cases "CHR ''/'' \<in> set x")
  case False
  assume "x \<noteq> []"
  with False show ?thesis
    by (simp add: to_native_id_no_slash)
next
  case True
  define mp where "mp = tl (dropWhile (\<lambda>c. c \<noteq> CHR ''/'') x)"
  have "dropWhile (\<lambda>c. c \<noteq> CHR ''/'') x \<noteq> []"
    using True by simp
  then have "length mp < length (dropWhile (\<lambda>c. c \<noteq> CHR ''/'') x)"
    by (simp add: mp_def)
  also have "\<dots> \<le> length x"
    by (rule length_dropWhile_le)
  finally have l: "length mp < length x" .
  have "length (split_first (re_sub_version mp) CHR '':'') \<le> length (re_sub_version mp)"
    unfolding split_first_def by (rule length_takeWhile_le)
  then have "length (split_first (re_sub_version mp) CHR '':'') \<le> length mp"
    by (simp add: length_re_sub_version)
  with l True show ?thesis
    by (simp add: to_native_id_def str_partition_def mp_def [symmetric])
qed

lemma set_re_sub_version: "set (re_sub_version s) \<subseteq> insert CHR ''-'' (set s)"
proof (induction s rule: re_sub_version_induct)
  case Nil
  show ?case by simp
next
  case (NoMatch c cs)
  then show ?case by auto
next
  case (Match c cs g1 g2 rest)
  have "set (c # cs) = set (g1 @ CHR ''.'' # g2 @ rest)"
    using match_versionD(1) [OF Match(1)] by simp
  then have "set g1 \<subseteq> set (c # cs)" and "set g2 \<subseteq> set (c # cs)"
    and "set rest \<subseteq> set (c # cs)"
    by auto
  with Match show ?case
    by (auto simp del: re_sub_version.simps simp add: re_sub_version_Some)
qed

lemma to_native_id_slug_no_slash:
  assumes "CHR ''/'' \<notin> set provider" and "CHR ''/'' \<notin> set slug"
  shows "CHR ''/'' \<notin> set (to_native_id (provider @ ''/'' @ slug))"
proof -
  have p: "str_partition (provider @ CHR ''/'' # slug) CHR ''/''
      = (provider, [CHR ''/''], slug)"
    using assms(1) by (rule str_partition_slash)
  have "CHR ''/'' \<notin> set (re_sub_version slug)"
    using set_re_sub_version [of slug] assms(2) by auto
  then have "CHR ''/'' \<notin> set (split_first (re_sub_version slug) CHR '':'')"
    unfolding split_first_def by (auto dest: set_takeWhileD)
  with p assms(2) show ?thesis
    by (simp add: to_native_id_def)
qed

text \<open>\<open>has_version\<close> is the containment of a substring digits, dot, digits.\<close>

lemma has_version_iff:
  "has_version s \<longleftrightarrow>
     (\<exists>u d1 d2 v. s = u @ d1 @ CHR ''.'' # d2 @ v \<and> d1 \<noteq> [] \<and> d2 \<noteq> []
        \<and> (\<forall>c \<in> set d1. is_digit c) \<and> (\<forall>c \<in> set d2. is_digit c))"
proof
  show "has_version s \<Longrightarrow>
     \<exists>u d1 d2 v. s = u @ d1 @ CHR ''.'' # d2 @ v \<and> d1 \<noteq> [] \<and> d2 \<noteq> []
        \<and> (\<forall>c \<in> set d1. is_digit c) \<and> (\<forall>c \<in> set d2. is_digit c)"
  proof (induction s)
    case Nil
    then show ?case by simp
  next
    case (Cons a s)
    show ?case
    proof (cases "is_digit a \<and> starts_dot_digit s")
      case True
      then obtain e r where s: "s = CHR ''.'' # e # r" and e: "is_digit e"
        by (auto simp: starts_dot_digit_iff)
      have "a # s = [] @ [a] @ CHR ''.'' # [e] @ r"
        using s by simp
      moreover have "[a] \<noteq> [] \<and> [e] \<noteq> [] \<and> (\<forall>c \<in> set [a]. is_digit c)
          \<and> (\<forall>c \<in> set [e]. is_digit c)"
        using True e by simp
      ultimately show ?thesis
        by blast
    next
      case False
      with Cons.prems have "has_version s"
        by simp
      from Cons.IH [OF this] obtain u d1 d2 v
        where "s = u @ d1 @ CHR ''.'' # d2 @ v" and p: "d1 \<noteq> []" "d2 \<noteq> []"
          "\<forall>c \<in> set d1. is_digit c" "\<forall>c \<in> set d2. is_digit c"
        by blast
      then have "a # s = (a # u) @ d1 @ CHR ''.'' # d2 @ v"
        by simp
      with p show ?thesis
        by blast
    qed
  qed
next
  assume "\<exists>u d1 d2 v. s = u @ d1 @ CHR ''.'' # d2 @ v \<and> d1 \<noteq> [] \<and> d2 \<noteq> []
        \<and> (\<forall>c \<in> set d1. is_digit c) \<and> (\<forall>c \<in> set d2. is_digit c)"
  then obtain u d1 d2 v where s: "s = u @ d1 @ CHR ''.'' # d2 @ v"
    and d1: "d1 \<noteq> []" "\<forall>c \<in> set d1. is_digit c"
    and d2: "d2 \<noteq> []" "\<forall>c \<in> set d2. is_digit c"
    by blast
  from d2 obtain e r where "d2 = e # r" and "is_digit e"
    by (cases d2) auto
  then have "starts_dot_digit (CHR ''.'' # d2 @ v)"
    by simp
  with d1 have "has_version (d1 @ CHR ''.'' # d2 @ v)"
    by (simp add: has_version_digits)
  then show "has_version s"
    unfolding s by (rule has_version_append)
qed

section \<open>Examples of the ID translator\<close>

text \<open>
  Claim C4: \<open>to_native_id\<close> maps \<open>google/gemini-2.5-flash\<close> to \<open>gemini-2.5-flash\<close>,
  \<open>anthropic/claude-sonnet-4.6\<close> to \<open>claude-sonnet-4-6\<close>, and
  \<open>anthropic/claude-3.5-sonnet:thinking\<close> to \<open>claude-3-5-sonnet\<close>.
\<close>

theorem to_native_id_examples:
  "to_native_id ''google/gemini-2.5-flash'' = ''gemini-2.5-flash'' \<and>
   to_native_id ''anthropic/claude-sonnet-4.6'' = ''claude-sonnet-4-6'' \<and>
   to_native_id ''anthropic/claude-3.5-sonnet:thinking'' = ''claude-3-5-sonnet''"
  by (simp add: to_native_id_def str_partition_def split_first_def match_version_def
      is_digit_def)

section \<open>Bounds on the search result\<close>

text \<open>
  Claim C3: for every list of query terms and every catalogue, \<open>search\<close> returns at most
  8 records, and every record it returns has a strictly positive score.
\<close>

theorem search_bounded_positive:
  "length (search query_terms models) \<le> 8 \<and>
   (\<forall>m \<in> set (search query_terms models). score_match query_terms m > 0)"
proof
  show "length (search query_terms models) \<le> 8"
    by (simp add: search_def)
next
  show "\<forall>m \<in> set (search query_terms models). score_match query_terms m > 0"
  proof
    fix m
    assume "m \<in> set (search query_terms models)"
    then obtain s where "(s, m) \<in> set (take 8 (sort_key (\<lambda>x. - fst x)
        (filter (\<lambda>(s, m). s > 0) (map (\<lambda>m. (score_match query_terms m, m)) models))))"
      by (auto simp: search_def)
    then have "(s, m) \<in> set (filter (\<lambda>(s, m). s > 0)
        (map (\<lambda>m. (score_match query_terms m, m)) models))"
      by (auto dest: in_set_takeD)
    then show "score_match query_terms m > 0"
      by auto
  qed
qed

theorem search_bounded_positive_witness:
  "search [''gemini'']
     [\<lparr>m_id = ''google/gemini-2.5-flash'', m_name = Some ''Gemini 2.5 Flash'',
       m_created = Some 1700000000\<rparr>,
      \<lparr>m_id = ''openai/gpt-4o:free'', m_name = None, m_created = Some 1700000000\<rparr>]
   = [\<lparr>m_id = ''google/gemini-2.5-flash'', m_name = Some ''Gemini 2.5 Flash'',
       m_created = Some 1700000000\<rparr>]
   \<and> score_match [''gemini'']
        \<lparr>m_id = ''google/gemini-2.5-flash'', m_name = Some ''Gemini 2.5 Flash'',
          m_created = Some 1700000000\<rparr> > 0"
proof -
  let ?g = "\<lparr>m_id = ''google/gemini-2.5-flash'', m_name = Some ''Gemini 2.5 Flash'',
       m_created = Some 1700000000\<rparr>"
  let ?o = "\<lparr>m_id = ''openai/gpt-4o:free'', m_name = None, m_created = Some 1700000000\<rparr>"
  have r: "search [''gemini''] [?g, ?o] = [?g]"
    by (simp add: search_def score_match_def score_term_def lower_def lower_char_def
        get_name_def get_created_def)
  from search_bounded_positive [of "[''gemini'']" "[?g, ?o]"]
  have "\<forall>m \<in> set (search [''gemini''] [?g, ?o]). score_match [''gemini''] m > 0"
    by (rule conjunct2)
  then have "score_match [''gemini''] ?g > 0"
    unfolding r by simp
  with r show ?thesis
    by (rule conjI)
qed

section \<open>Provider listing\<close>

text \<open>
  Claim C8: for every provider key and catalogue, \<open>list_provider\<close> returns exactly the
  records whose ID starts with the prefix of that key (the entry of the fixed table, or
  the key followed by a slash when the table has none), in the order of the catalogue;
  for the key \<open>google\<close> these are the records whose ID starts with \<open>google/\<close>.
\<close>

theorem list_provider_prefix:
  "list_provider provider models =
     filter (\<lambda>m. prefix (case map_of PROVIDER_PREFIXES provider of
                            None \<Rightarrow> provider @ ''/''
                          | Some p \<Rightarrow> p) (m_id m)) models
   \<and> list_provider ''google'' models = filter (\<lambda>m. prefix ''google/'' (m_id m)) models"
  by (simp add: list_provider_def provider_prefix_def startswith_prefix
      PROVIDER_PREFIXES_def)

section \<open>Fresh cache\<close>

text \<open>
  Claim C1: when the cache file exists and its age (the clock minus the modification
  time of the file) is strictly below 3600 seconds, \<open>fetch_models\<close> sends no request and
  returns exactly what deserialising the cache file gives (the decoding error when the
  text is malformed); the world is left as it was.
\<close>

theorem fetch_models_fresh_cache:
  assumes "cache_file w = Some (mtime, content)" and "clock w - mtime < 3600"
  shows "fetch_models J w =
           ((case loads J content of None \<Rightarrow> Inl JSONDecodeError | Some v \<Rightarrow> Inr v), w)
         \<and> requests (snd (fetch_models J w)) = requests w"
  using assms by (simp add: fetch_models_def CACHE_TTL_def split: option.splits)

theorem fetch_models_fresh_cache_witness:
  "fetch_models \<lparr>loads = Some, dumps = (\<lambda>v. v), subscript_data = Some\<rparr>
     \<lparr>cache_file = Some (1000, ''[]''), clock = 4599, response = None, requests = 0\<rparr>
   = (Inr ''[]'',
      \<lparr>cache_file = Some (1000, ''[]''), clock = 4599, response = None, requests = 0\<rparr>)"
proof -
  let ?w = "\<lparr>cache_file = Some (1000, ''[]''), clock = 4599, response = None,
      requests = 0\<rparr>"
  let ?J = "\<lparr>loads = Some, dumps = (\<lambda>v. v), subscript_data = Some\<rparr>
      :: string json_lib"
  have c: "cache_file ?w = Some (1000, ''[]'')"
    by simp
  have a: "clock ?w - 1000 < 3600"
    by simp
  from fetch_models_fresh_cache [OF c a, of ?J]
  show ?thesis
    by simp
qed

section \<open>The score\<close>




section \<open>Records that every query finds\<close>




section \<open>Exit status\<close>



section \<open>Order of the search result\<close>



section \<open>The dash-substitution provider\<close>




section \<open>Applying the translator twice\<close>

text \<open>
  Claim C6, as stated, fails: the result of \<open>to_native_id\<close> has lost its provider
  segment, so a second application finds no slash and returns the empty string.
\<close>

theorem to_native_id_twice_counterexample:
  "to_native_id ''google/gemini-2.5-flash'' = ''gemini-2.5-flash''
   \<and> to_native_id (to_native_id ''google/gemini-2.5-flash'') = []"
  by (simp add: to_native_id_def str_partition_def)

text \<open>
  Claim C6, amended: applying \<open>to_native_id\<close> twice yields the same result as applying
  it once exactly when the first result is the empty string; for a well-formed input
  \<open>provider/slug\<close>, neither part containing a slash, the second application returns the
  empty string.
\<close>

theorem to_native_id_twice:
  "(to_native_id (to_native_id x) = to_native_id x \<longleftrightarrow> to_native_id x = [])
   \<and> (CHR ''/'' \<notin> set provider \<and> CHR ''/'' \<notin> set slug \<longrightarrow>
        to_native_id (to_native_id (provider @ ''/'' @ slug)) = [])"
proof (intro conjI impI)
  show "to_native_id (to_native_id x) = to_native_id x \<longleftrightarrow> to_native_id x = []"
  proof
    assume eq: "to_native_id (to_native_id x) = to_native_id x"
    show "to_native_id x = []"
    proof (rule ccontr)
      assume "to_native_id x \<noteq> []"
      then have "length (to_native_id (to_native_id x)) < length (to_native_id x)"
        by (rule length_to_native_id)
      with eq show False
        by simp
    qed
  next
    assume "to_native_id x = []"
    then show "to_native_id (to_native_id x) = to_native_id x"
      by (simp add: to_native_id_no_slash)
  qed
next
  assume "CHR ''/'' \<notin> set provider \<and> CHR ''/'' \<notin> set slug"
  then have "CHR ''/'' \<notin> set provider" and "CHR ''/'' \<notin> set slug"
    by simp_all
  then have "CHR ''/'' \<notin> set (to_native_id (provider @ ''/'' @ slug))"
    by (rule to_native_id_slug_no_slash)
  then show "to_native_id (to_native_id (provider @ ''/'' @ slug)) = []"
    by (rule to_native_id_no_slash)
qed

theorem to_native_id_twice_witness:
  "CHR ''/'' \<notin> set ''anthropic'' \<and> CHR ''/'' \<notin> set ''claude-sonnet-4.6''
   \<and> to_native_id (''anthropic'' @ ''/'' @ ''claude-sonnet-4.6'') = ''claude-sonnet-4-6''
   \<and> to_native_id (to_native_id (''anthropic'' @ ''/'' @ ''claude-sonnet-4.6'')) = []"
proof -
  have h: "CHR ''/'' \<notin> set ''anthropic'' \<and> CHR ''/'' \<notin> set ''claude-sonnet-4.6''"
    by simp
  have v: "to_native_id (''anthropic'' @ ''/'' @ ''claude-sonnet-4.6'') = ''claude-sonnet-4-6''"
    by (simp add: to_native_id_def str_partition_def split_first_def match_version_def
        is_digit_def)
  from to_native_id_twice [of _ "''anthropic''" "''claude-sonnet-4.6''"] h
  have "to_native_id (to_native_id (''anthropic'' @ ''/'' @ ''claude-sonnet-4.6'')) = []"
    by blast
  with h v show ?thesis
    by blast
qed

end
